theory Spec2Isabelle
  imports Main
begin

section \<open>Form-X: the string formatting pipeline of \<open>main.py\<close>\<close>

text \<open>
  The theory embeds the processing methods of \<open>StringFormatterApp\<close>
  (\<open>auto_detect_separator\<close>, \<open>clean_and_split_string\<close>, \<open>count_actual_content\<close>,
  the \<open>format_*\<close> methods and \<open>process_string\<close>) as HOL functions.
  Window construction, tooltips, clipboard and file loading are not modelled.

  Python strings are modelled as \<open>string\<close>, so a character is one of the code points
  below 256. Tk variables set by radio buttons are datatypes with one constructor per
  radio button value; the message boxes a method opens are recorded, in order, in the
  field \<open>shown\<close> of the application state.
\<close>

subsection \<open>Python string primitives\<close>

text \<open>
  The whitespace class of \<open>str.strip\<close>, \<open>str.split\<close> and of \<open>\s\<close> in \<open>re\<close>
  (the code points below 256 for which \<open>str.isspace\<close> holds).
\<close>

definition isspace :: "char \<Rightarrow> bool" where
  "isspace c = (c \<in> set [CHR 0x09, CHR 0x0A, CHR 0x0B, CHR 0x0C, CHR 0x0D,
                          CHR 0x1C, CHR 0x1D, CHR 0x1E, CHR 0x1F, CHR 0x20,
                          CHR 0x85, CHR 0xA0])"

text \<open>The class \<open>[a-zA-Z0-9]\<close>.\<close>

definition isalnum_ascii :: "char \<Rightarrow> bool" where
  "isalnum_ascii c =
     (let n = (of_char c :: nat)
      in (97 \<le> n \<and> n \<le> 122) \<or> (65 \<le> n \<and> n \<le> 90) \<or> (48 \<le> n \<and> n \<le> 57))"

abbreviation newline :: char where
  "newline \<equiv> CHR 0x0A"

abbreviation dquote :: char where
  "dquote \<equiv> CHR 0x22"

text \<open>\<open>s.strip()\<close>\<close>

definition strip :: "string \<Rightarrow> string" where
  "strip s = rev (dropWhile isspace (rev (dropWhile isspace s)))"

text \<open>\<open>s.split()\<close>: the maximal runs of non-whitespace characters, in order.\<close>

function split_ws :: "string \<Rightarrow> string list" where
  "split_ws s =
     (case dropWhile isspace s of
        [] \<Rightarrow> []
      | c # cs \<Rightarrow> (c # takeWhile (\<lambda>x. \<not> isspace x) cs)
                 # split_ws (dropWhile (\<lambda>x. \<not> isspace x) cs))"
  by pat_completeness auto
termination
proof (relation "measure length")
  show "wf (measure length)" by simp
next
  fix s :: string and c cs
  assume h: "dropWhile isspace s = c # cs"
  have "length (dropWhile (\<lambda>x. \<not> isspace x) cs) \<le> length cs"
    by (rule length_dropWhile_le)
  moreover have "length (c # cs) \<le> length s"
    using length_dropWhile_le [of isspace s] unfolding h .
  ultimately show "(dropWhile (\<lambda>x. \<not> isspace x) cs, s) \<in> measure length"
    by simp
qed

declare split_ws.simps [simp del]

text \<open>\<open>s.split(sep)\<close> for a separator of one character: empty pieces are kept.\<close>

function split_on :: "char \<Rightarrow> string \<Rightarrow> string list" where
  "split_on sep s =
     (case dropWhile (\<lambda>x. x \<noteq> sep) s of
        [] \<Rightarrow> [s]
      | c # rest \<Rightarrow> takeWhile (\<lambda>x. x \<noteq> sep) s # split_on sep rest)"
  by pat_completeness auto
termination
proof (relation "measure (\<lambda>(sep, s). length s)")
  show "wf (measure (\<lambda>(sep :: char, s :: string). length s))" by simp
next
  fix sep :: char and s :: string and c rest
  assume h: "dropWhile (\<lambda>x. x \<noteq> sep) s = c # rest"
  have "length (c # rest) \<le> length s"
    using length_dropWhile_le [of "\<lambda>x. x \<noteq> sep" s] unfolding h .
  then show "((sep, rest), (sep, s)) \<in> measure (\<lambda>(sep, s). length s)"
    by simp
qed

declare split_on.simps [simp del]

text \<open>\<open>sep.join(xs)\<close>\<close>

fun join :: "string \<Rightarrow> string list \<Rightarrow> string" where
  "join sep [] = []"
| "join sep [x] = x"
| "join sep (x # y # ys) = x @ sep @ join sep (y # ys)"

text \<open>\<open>re.sub(r'/n', ' ', s)\<close>: leftmost, non-overlapping matches of the two characters.\<close>

fun sub_slash_n :: "string \<Rightarrow> string" where
  "sub_slash_n (c # d # cs) =
     (if c = CHR ''/'' \<and> d = CHR ''n'' then CHR '' '' # sub_slash_n cs
      else c # sub_slash_n (d # cs))"
| "sub_slash_n cs = cs"

text \<open>Whether the pattern \<open>/n\<close> of that substitution matches anywhere in the string.\<close>

fun has_marker :: "string \<Rightarrow> bool" where
  "has_marker (c # d # cs) = ((c = CHR ''/'' \<and> d = CHR ''n'') \<or> has_marker (d # cs))"
| "has_marker cs = False"

text \<open>\<open>re.sub(r'\s+', ' ', s)\<close>: every maximal whitespace run becomes one space.\<close>

function sub_spaces :: "string \<Rightarrow> string" where
  "sub_spaces [] = []"
| "sub_spaces (c # cs) =
     (if isspace c then CHR '' '' # sub_spaces (dropWhile isspace cs)
      else c # sub_spaces cs)"
  by pat_completeness auto
termination
  by (relation "measure length") (auto simp: le_imp_less_Suc length_dropWhile_le)

text \<open>\<open>str(n)\<close> for a non-negative integer.\<close>

function show_nat :: "nat \<Rightarrow> string" where
  "show_nat n =
     (if n < 10 then [''0123456789'' ! n]
      else show_nat (n div 10) @ [''0123456789'' ! (n mod 10)])"
  by pat_completeness auto
termination
  by (relation "measure id") auto

declare show_nat.simps [simp del]

subsection \<open>Application state\<close>

datatype sep_type = SepAuto | SepSpace | SepComma | SepNewline

datatype fmt_type = FmtNone | FmtList | FmtDict | FmtTuple

datatype key_type = KeyNone | KeyIndex | KeyAuto | KeyFirstWord | KeyUserDefined

text \<open>
  The warnings of \<open>messagebox.showwarning\<close> in the processing path:
  \<open>EmptyInput\<close> is "Please enter a string to format", \<open>NoItemsFound\<close> is
  "No items found in the input string", \<open>MissingPrefix\<close> is "Please enter a prefix
  for user-defined keys or select a different option".
\<close>

datatype message = EmptyInput | NoItemsFound | MissingPrefix

record app =
  input_text :: string
  separator_var :: sep_type
  format_type :: fmt_type
  dict_key_type :: key_type
  user_prefix :: string
  output_text :: string
  shown :: "message list"

definition showwarning :: "message \<Rightarrow> app \<Rightarrow> app" where
  "showwarning m a = a\<lparr>shown := shown a @ [m]\<rparr>"

subsection \<open>String processing utilities\<close>

text \<open>
  \<open>auto_detect_separator\<close> returns one of the strings \<open>","\<close>, \<open>"\n"\<close>, \<open>" "\<close>;
  the model returns their single character. \<open>space_count\<close> is computed and never read.
\<close>

definition auto_detect_separator :: "string \<Rightarrow> char" where
  "auto_detect_separator input_string =
     (if input_string = [] then CHR '' ''
      else
        let comma_count = count_list input_string CHR '','';
            newline_count = count_list input_string newline;
            space_count = int (length (filter (\<lambda>word. strip word \<noteq> []) (split_ws input_string))) - 1
        in if comma_count > 0 \<and> comma_count \<ge> newline_count then CHR '',''
           else if newline_count > 0 then newline
           else CHR '' '')"

text \<open>The first three statements of \<open>clean_and_split_string\<close>.\<close>

definition cleaned :: "string \<Rightarrow> string" where
  "cleaned input_string = strip (sub_spaces (sub_slash_n input_string))"

definition clean_and_split_string :: "app \<Rightarrow> string \<Rightarrow> string list" where
  "clean_and_split_string a input_string =
     (let text = cleaned input_string
      in case separator_var a of
           SepAuto \<Rightarrow>
             (let separator = auto_detect_separator text
              in map strip (filter (\<lambda>item. strip item \<noteq> []) (split_on separator text)))
         | _ \<Rightarrow> map strip (filter (\<lambda>item. strip item \<noteq> []) (split_ws text)))"

definition count_actual_content :: "string list \<Rightarrow> nat" where
  "count_actual_content items =
     fold (\<lambda>item content_count.
             let clean_item = filter (\<lambda>c. isalnum_ascii c \<or> isspace c) item;
                 words = filter (\<lambda>word. strip word \<noteq> []) (split_ws clean_item)
             in content_count + length words)
          items 0"

subsection \<open>Formatting methods\<close>

definition quoted :: "string \<Rightarrow> string" where
  "quoted s = dquote # s @ [dquote]"

definition format_items_as_string :: "string list \<Rightarrow> string" where
  "format_items_as_string items = join '', '' (map quoted items)"

definition format_as_list :: "string list \<Rightarrow> string" where
  "format_as_list items = ''['' @ format_items_as_string items @ '']''"

definition format_as_tuple :: "string list \<Rightarrow> string" where
  "format_as_tuple items = ''('' @ format_items_as_string items @ '')''"

text \<open>One entry \<open>"key": "value"\<close> of \<open>dict_entries\<close>.\<close>

definition dict_entry :: "string \<Rightarrow> string \<Rightarrow> string" where
  "dict_entry key val = quoted key @ '': '' @ quoted val"

text \<open>The body of the loop of the \<open>first_word\<close> branch: the entry of one item.\<close>

definition first_word_key_value :: "string \<Rightarrow> string \<times> string" where
  "first_word_key_value item =
     (let words = split_ws item
      in case words of
           key # rest \<Rightarrow> (key, if length words > 1 then join '' '' rest else item)
         | [] \<Rightarrow> (item, item))"

definition dict_braces :: "string list \<Rightarrow> string" where
  "dict_braces dict_entries = ''{'' @ join '', '' dict_entries @ ''}''"

text \<open>
  \<open>format_as_dict\<close> returns the dictionary text or \<open>None\<close>, and opens a warning when
  the user-defined prefix is missing: the result is paired with the updated state.
\<close>

definition format_as_dict :: "app \<Rightarrow> string list \<Rightarrow> string option \<times> app" where
  "format_as_dict a items =
     (case dict_key_type a of
        KeyNone \<Rightarrow> (None, a)
      | KeyIndex \<Rightarrow>
          (Some (dict_braces (map (\<lambda>(i, item). dict_entry (show_nat i) item)
                                  (enumerate 0 items))), a)
      | KeyAuto \<Rightarrow>
          (Some (dict_braces (map (\<lambda>(i, item). dict_entry (''item_'' @ show_nat (i + 1)) item)
                                  (enumerate 0 items))), a)
      | KeyUserDefined \<Rightarrow>
          (let prefix = strip (user_prefix a)
           in if prefix = [] then (None, showwarning MissingPrefix a)
              else (Some (dict_braces
                            (map (\<lambda>(i, item). dict_entry (prefix @ ''_'' @ show_nat (i + 1)) item)
                                 (enumerate 0 items))), a))
      | KeyFirstWord \<Rightarrow>
          (Some (dict_braces (map (\<lambda>item. case first_word_key_value item of
                                             (key, val) \<Rightarrow> dict_entry key val) items)), a))"

definition format_with_separator_style :: "app \<Rightarrow> string list \<Rightarrow> fmt_type \<Rightarrow> string option" where
  "format_with_separator_style a items fmt =
     (let sep_type = separator_var a
      in if sep_type = SepComma \<and> fmt = FmtNone then Some (join '', '' items)
         else if sep_type = SepNewline \<and> fmt = FmtNone then Some (join [newline] items)
         else if sep_type = SepSpace \<and> fmt = FmtNone then Some (join '' '' items)
         else None)"

subsection \<open>Main processing method\<close>

text \<open>
  \<open>process_string\<close> reads the input widget and either returns early after a warning or
  replaces the content of the output widget. The \<open>try\<close> block calls only total string
  operations, so its \<open>except\<close> branch has no counterpart here.
\<close>

definition display :: "string \<Rightarrow> app \<Rightarrow> app" where
  "display output a = a\<lparr>output_text := output\<rparr>"

definition process_string :: "app \<Rightarrow> app" where
  "process_string a =
     (let input_string = strip (input_text a)
      in if input_string = [] then showwarning EmptyInput a
         else
           let fmt = format_type a;
               items = clean_and_split_string a input_string
           in if items = [] then showwarning NoItemsFound a
              else
                let content_count = count_actual_content items;
                    output = ''Item count: '' @ show_nat content_count @ [newline, newline];
                    special_format = format_with_separator_style a items fmt
                in case special_format of
                     Some special \<Rightarrow> display (output @ special) a
                   | None \<Rightarrow>
                       (case fmt of
                          FmtList \<Rightarrow> display (output @ format_as_list items) a
                        | FmtDict \<Rightarrow>
                            (case format_as_dict a items of
                               (Some dict_result, a') \<Rightarrow> display (output @ dict_result) a'
                             | (None, a') \<Rightarrow>
                                 (case format_with_separator_style a' items FmtNone of
                                    Some separator_format \<Rightarrow> display (output @ separator_format) a'
                                  | None \<Rightarrow> display output a'))
                        | FmtTuple \<Rightarrow> display (output @ format_as_tuple items) a
                        | FmtNone \<Rightarrow> display output a))"

text \<open>
  The state before one call of \<open>process_string\<close>: the input widget holds \<open>raw\<close>, the
  options are as given, the output widget holds the text of an earlier call and no message
  box has been opened so far.
\<close>

definition snapshot :: "string \<Rightarrow> sep_type \<Rightarrow> fmt_type \<Rightarrow> key_type \<Rightarrow> string \<Rightarrow> app" where
  "snapshot raw sep fmt key prefix =
     \<lparr>input_text = raw, separator_var = sep, format_type = fmt, dict_key_type = key,
      user_prefix = prefix, output_text = ''previous output'', shown = []\<rparr>"

subsection \<open>Facts about the string primitives\<close>

lemma isspace_space [simp]: "isspace CHR '' ''"
  by (simp add: isspace_def)

lemma isspace_newline [simp]: "isspace newline"
  by (simp add: isspace_def)

lemma not_isspace_comma [simp]: "\<not> isspace CHR '',''"
  by (simp add: isspace_def)

lemma strip_Nil_iff: "strip s = [] \<longleftrightarrow> (\<forall>c\<in>set s. isspace c)"
proof
  assume "strip s = []"
  then have all: "\<forall>c\<in>set (dropWhile isspace s). isspace c"
    by (simp add: strip_def)
  have "dropWhile isspace s = []"
  proof (rule ccontr)
    assume ne: "dropWhile isspace s \<noteq> []"
    then have "\<not> isspace (hd (dropWhile isspace s))" by (rule hd_dropWhile)
    moreover have "hd (dropWhile isspace s) \<in> set (dropWhile isspace s)"
      using ne by (rule hd_in_set)
    ultimately show False using all by blast
  qed
  then show "\<forall>c\<in>set s. isspace c" by simp
next
  assume "\<forall>c\<in>set s. isspace c"
  then have e: "dropWhile isspace s = []" by simp
  show "strip s = []" unfolding strip_def e by simp
qed

lemma strip_no_space: "\<forall>c\<in>set s. \<not> isspace c \<Longrightarrow> strip s = s"
proof -
  assume h: "\<forall>c\<in>set s. \<not> isspace c"
  have 1: "dropWhile isspace s = s"
    using h by (cases s) auto
  have 2: "dropWhile isspace (rev s) = rev s"
    using h by (cases "rev s") (auto simp: rev_eq_Cons_iff)
  show ?thesis by (simp add: strip_def 1 2)
qed

lemma strip_ends: "s \<noteq> [] \<Longrightarrow> \<not> isspace (hd s) \<Longrightarrow> \<not> isspace (last s) \<Longrightarrow> strip s = s"
proof -
  assume h: "s \<noteq> []" "\<not> isspace (hd s)" "\<not> isspace (last s)"
  have 1: "dropWhile isspace s = s"
    using h by (cases s) auto
  have 2: "dropWhile isspace (rev s) = rev s"
    using h by (cases "rev s") (auto simp: last_rev hd_rev rev_eq_Cons_iff)
  show ?thesis by (simp add: strip_def 1 2)
qed


lemma set_strip: "set (strip s) \<subseteq> set s"
proof -
  have "set (strip s) \<subseteq> set (dropWhile isspace s)"
    using set_dropWhileD [of _ isspace "rev (dropWhile isspace s)"] by (auto simp: strip_def)
  then show ?thesis
    using set_dropWhileD [of _ isspace s] by auto
qed

lemma strip_idem: "strip (strip s) = strip s"
proof (cases "strip s = []")
  case True
  have "strip [] = []" by (simp add: strip_def)
  with True show ?thesis by simp
next
  case False
  let ?t = "dropWhile isspace s"
  let ?u = "dropWhile isspace (rev ?t)"
  from False have u: "?u \<noteq> []" by (simp add: strip_def)
  then have t: "?t \<noteq> []" by (metis dropWhile.simps(1) rev.simps(1))
  have hu: "\<not> isspace (hd ?u)" using u by (rule hd_dropWhile)
  have ht: "\<not> isspace (hd ?t)" using t by (rule hd_dropWhile)
  have "last (strip s) = hd ?u" using u by (simp add: strip_def last_rev)
  moreover have "hd (strip s) = hd ?t"
  proof -
    have "rev ?t = takeWhile isspace (rev ?t) @ ?u" by simp
    then have "?t = rev ?u @ rev (takeWhile isspace (rev ?t))"
      by (metis rev_append rev_rev_ident)
    then have "hd ?t = hd (rev ?u)" using u by (metis hd_append2 rev_is_Nil_conv)
    then show ?thesis by (simp add: strip_def)
  qed
  ultimately show ?thesis using False hu ht by (intro strip_ends) auto
qed

lemma split_ws_Nil [simp]: "split_ws [] = []"
  by (simp add: split_ws.simps)

lemma split_ws_dropWhile: "split_ws (dropWhile isspace s) = split_ws s"
  by (subst split_ws.simps, subst (2) split_ws.simps) simp

lemma split_ws_Cons_space: "isspace c \<Longrightarrow> split_ws (c # s) = split_ws s"
  by (subst split_ws.simps, subst (2) split_ws.simps) simp

lemma split_ws_Cons_word:
  "\<not> isspace c \<Longrightarrow>
   split_ws (c # s) = (c # takeWhile (\<lambda>x. \<not> isspace x) s) # split_ws (dropWhile (\<lambda>x. \<not> isspace x) s)"
  by (subst split_ws.simps) simp

lemma split_ws_all_space:
  assumes "\<forall>c\<in>set s. isspace c"
  shows "split_ws s = []"
proof -
  have e: "dropWhile isspace s = []" using assms by simp
  show ?thesis by (subst split_ws.simps) (simp only: e list.case)
qed

lemma split_ws_words:
  "w \<in> set (split_ws s) \<Longrightarrow> w \<noteq> [] \<and> (\<forall>c\<in>set w. \<not> isspace c)"
proof (induction s rule: split_ws.induct)
  case (1 s)
  let ?ns = "\<lambda>x. \<not> isspace x"
  show ?case
  proof (cases "dropWhile isspace s")
    case Nil
    have "split_ws s = []"
      by (subst split_ws.simps) (simp only: Nil list.case)
    with "1.prems" show ?thesis by simp
  next
    case (Cons c cs)
    have "dropWhile isspace s \<noteq> []" unfolding Cons by simp
    then have "\<not> isspace (hd (dropWhile isspace s))" by (rule hd_dropWhile)
    then have c: "\<not> isspace c" unfolding Cons by simp
    have eq: "split_ws s = (c # takeWhile ?ns cs) # split_ws (dropWhile ?ns cs)"
      by (subst split_ws.simps) (simp only: Cons list.case)
    from "1.prems" have "w = c # takeWhile ?ns cs \<or> w \<in> set (split_ws (dropWhile ?ns cs))"
      unfolding eq by simp
    then show ?thesis
    proof
      assume w: "w = c # takeWhile ?ns cs"
      have "\<forall>x\<in>set (takeWhile ?ns cs). \<not> isspace x"
        using set_takeWhileD [of _ ?ns cs] by blast
      with c show ?thesis unfolding w by simp
    next
      assume "w \<in> set (split_ws (dropWhile ?ns cs))"
      then show ?thesis by (rule "1.IH" [OF Cons])
    qed
  qed
qed

lemma strip_words: "map strip (filter (\<lambda>item. strip item \<noteq> []) (split_ws s)) = split_ws s"
proof -
  have "\<forall>w\<in>set (split_ws s). strip w = w \<and> strip w \<noteq> []"
    using split_ws_words [of _ s] by (simp add: strip_no_space)
  then have "filter (\<lambda>item. strip item \<noteq> []) (split_ws s) = split_ws s"
    and "map strip (split_ws s) = split_ws s"
    by (auto intro: filter_True map_idI)
  then show ?thesis by simp
qed

lemma split_ws_append_space:
  "\<forall>c\<in>set v. isspace c \<Longrightarrow> split_ws (u @ v) = split_ws u"
proof (induction u rule: split_ws.induct)
  case (1 u)
  let ?ns = "\<lambda>x. \<not> isspace x"
  have v: "\<forall>c\<in>set v. isspace c" by (rule "1.prems")
  show ?case
  proof (cases "dropWhile isspace u")
    case Nil
    then have "\<forall>c\<in>set u. isspace c" by simp
    with v have "\<forall>c\<in>set (u @ v). isspace c" "\<forall>c\<in>set u. isspace c" by auto
    then show ?thesis by (simp only: split_ws_all_space)
  next
    case (Cons c cs)
    have tv: "takeWhile ?ns v = []" using v by (cases v) simp_all
    have dv: "dropWhile ?ns v = v" using v by (cases v) simp_all
    have "dropWhile isspace u \<noteq> []" unfolding Cons by simp
    then have "\<not> isspace (hd (dropWhile isspace u))" by (rule hd_dropWhile)
    then have c: "\<not> isspace c" unfolding Cons by simp
    have "c \<in> set (dropWhile isspace u)" unfolding Cons by simp
    then have "c \<in> set u" by (rule set_dropWhileD)
    then have "dropWhile isspace (u @ v) = dropWhile isspace u @ v"
      using c by (rule dropWhile_append1)
    then have d: "dropWhile isspace (u @ v) = c # cs @ v" unfolding Cons by simp
    have t: "takeWhile ?ns (cs @ v) = takeWhile ?ns cs"
    proof (cases "\<forall>x\<in>set cs. \<not> isspace x")
      case True
      then have tw: "takeWhile ?ns cs = cs" by simp
      show ?thesis unfolding tw using True by (simp add: takeWhile_append tv)
    next
      case False
      then obtain x where "x \<in> set cs" "\<not> \<not> isspace x" by blast
      then show ?thesis by (rule takeWhile_append1)
    qed
    have r: "dropWhile ?ns (cs @ v) = dropWhile ?ns cs @ v"
      by (simp add: dropWhile_append dv)
    have "split_ws (u @ v) = (c # takeWhile ?ns cs) # split_ws (dropWhile ?ns cs @ v)"
      by (subst split_ws.simps) (simp only: d t r list.case)
    also have "\<dots> = (c # takeWhile ?ns cs) # split_ws (dropWhile ?ns cs)"
      using "1.IH" [OF Cons v] by simp
    also have "\<dots> = split_ws u"
      by (subst (2) split_ws.simps) (simp only: Cons list.case)
    finally show ?thesis .
  qed
qed

lemma split_ws_strip: "split_ws (strip s) = split_ws s"
proof -
  let ?t = "dropWhile isspace s"
  have "rev ?t = takeWhile isspace (rev ?t) @ dropWhile isspace (rev ?t)" by simp
  then have "?t = strip s @ rev (takeWhile isspace (rev ?t))"
    unfolding strip_def by (metis rev_append rev_rev_ident)
  moreover have "\<forall>c\<in>set (rev (takeWhile isspace (rev ?t))). isspace c"
    by (auto dest: set_takeWhileD)
  ultimately have "split_ws ?t = split_ws (strip s)"
    using split_ws_append_space by metis
  then show ?thesis by (simp add: split_ws_dropWhile)
qed

lemma show_nat_digits: "show_nat n \<noteq> [] \<and> set (show_nat n) \<subseteq> set ''0123456789''"
proof (induction n rule: show_nat.induct)
  case (1 n)
  define D where "D = set ''0123456789''"
  have digit: "''0123456789'' ! m \<in> D" if "m < 10" for m
    unfolding D_def by (rule nth_mem) (use that in simp)
  show ?case
  proof (cases "n < 10")
    case True
    have "show_nat n = [''0123456789'' ! n]"
      by (subst show_nat.simps) (simp add: True)
    then show ?thesis using digit [OF True] unfolding D_def by simp
  next
    case False
    have "show_nat n = show_nat (n div 10) @ [''0123456789'' ! (n mod 10)]"
      by (subst show_nat.simps) (simp add: False)
    moreover have "''0123456789'' ! (n mod 10) \<in> D" by (rule digit) simp
    moreover have "set (show_nat (n div 10)) \<subseteq> D"
      using "1.IH" [OF False] unfolding D_def by simp
    ultimately show ?thesis unfolding D_def by simp
  qed
qed


lemma split_ws_Nil_iff: "split_ws s = [] \<longleftrightarrow> (\<forall>c\<in>set s. isspace c)"
proof
  assume e: "split_ws s = []"
  have "dropWhile isspace s = []"
  proof (cases "dropWhile isspace s")
    case Nil
    then show ?thesis .
  next
    case (Cons c cs)
    have "split_ws s \<noteq> []"
      by (subst split_ws.simps) (simp only: Cons list.case list.distinct not_False_eq_True)
    with e show ?thesis by simp
  qed
  then show "\<forall>c\<in>set s. isspace c" by simp
next
  assume "\<forall>c\<in>set s. isspace c"
  then show "split_ws s = []" by (rule split_ws_all_space)
qed

lemma split_ws_single:
  assumes "split_ws s = [w]"
  shows "strip s = w"
proof (cases "dropWhile isspace s")
  case Nil
  have "split_ws s = []"
    by (subst split_ws.simps) (simp only: Nil list.case)
  with assms show ?thesis by simp
next
  case (Cons c cs)
  let ?ns = "\<lambda>x. \<not> isspace x"
  let ?r = "dropWhile ?ns cs"
  have eq: "split_ws s = (c # takeWhile ?ns cs) # split_ws ?r"
    by (subst split_ws.simps) (simp only: Cons list.case)
  from assms have "(c # takeWhile ?ns cs) # split_ws ?r = [w]" unfolding eq .
  then have w: "w = c # takeWhile ?ns cs" and r: "split_ws ?r = []"
    by simp_all
  from r have rs: "\<forall>x\<in>set ?r. isspace x" by (simp only: split_ws_Nil_iff)
  have "dropWhile isspace s \<noteq> []" unfolding Cons by simp
  then have "\<not> isspace (hd (dropWhile isspace s))" by (rule hd_dropWhile)
  then have c: "\<not> isspace c" unfolding Cons by simp
  have "\<forall>x\<in>set (takeWhile ?ns cs). \<not> isspace x"
    using set_takeWhileD [of _ ?ns cs] by blast
  with c have wn: "\<forall>x\<in>set w. \<not> isspace x" unfolding w by simp
  have wne: "w \<noteq> []" unfolding w by simp
  then have "last w \<in> set w" by (rule last_in_set)
  with wn have "\<not> isspace (last w)" by blast
  then have "\<not> isspace (hd (rev w))" using wne by (simp add: hd_rev)
  then have dw: "dropWhile isspace (rev w) = rev w" by (simp add: dropWhile_eq_self_iff)
  have t: "dropWhile isspace s = w @ ?r" unfolding Cons w by simp
  have "dropWhile isspace (rev ?r @ rev w) = dropWhile isspace (rev w)"
  proof (rule dropWhile_append2)
    fix x
    assume "x \<in> set (rev ?r)"
    then have "x \<in> set ?r" by (simp only: set_rev)
    with rs show "isspace x" by blast
  qed
  then have "dropWhile isspace (rev (w @ ?r)) = rev w" unfolding dw by simp
  then show ?thesis unfolding strip_def t by simp
qed

lemma items_trimmed:
  "item \<in> set (clean_and_split_string a raw) \<Longrightarrow> strip item = item \<and> item \<noteq> []"
  by (auto simp: clean_and_split_string_def Let_def strip_idem split: sep_type.splits)

lemma sub_spaces_whitespace:
  "c \<in> set (sub_spaces s) \<Longrightarrow> isspace c \<Longrightarrow> c = CHR '' ''"
proof (induction s rule: sub_spaces.induct)
  case 1
  then show ?case by simp
next
  case (2 d ds)
  show ?case
  proof (cases "isspace d")
    case True
    with "2.prems" have "c = CHR '' '' \<or> c \<in> set (sub_spaces (dropWhile isspace ds))"
      by simp
    then show ?thesis using "2.IH"(1) [OF True] "2.prems"(2) by blast
  next
    case False
    with "2.prems" have "c = d \<or> c \<in> set (sub_spaces ds)"
      by simp
    then show ?thesis using "2.IH"(2) [OF False] "2.prems"(2) False by blast
  qed
qed

lemma cleaned_no_newline: "newline \<notin> set (cleaned raw)"
proof
  assume "newline \<in> set (cleaned raw)"
  then have "newline \<in> set (sub_spaces (sub_slash_n raw))"
    unfolding cleaned_def using set_strip by blast
  then have "newline = CHR '' ''"
    by (rule sub_spaces_whitespace) simp
  then show False by simp
qed

lemma sub_slash_n_id: "\<not> has_marker s \<Longrightarrow> sub_slash_n s = s"
  by (induction s rule: has_marker.induct) auto

lemma has_marker_Cons: "c \<noteq> CHR ''/'' \<Longrightarrow> has_marker (c # y) = has_marker y"
  by (cases y) auto

lemma has_marker_append_sep:
  "\<not> has_marker x \<Longrightarrow> \<not> has_marker y \<Longrightarrow> c \<noteq> CHR ''/'' \<Longrightarrow> c \<noteq> CHR ''n'' \<Longrightarrow>
   \<not> has_marker (x @ c # y)"
  by (induction x rule: has_marker.induct) (auto simp: has_marker_Cons)

lemma takeWhile_sub_spaces:
  "takeWhile (\<lambda>x. \<not> isspace x) (sub_spaces s) = takeWhile (\<lambda>x. \<not> isspace x) s"
  by (induction s rule: sub_spaces.induct) auto

lemma dropWhile_sub_spaces:
  "dropWhile (\<lambda>x. \<not> isspace x) (sub_spaces s) = sub_spaces (dropWhile (\<lambda>x. \<not> isspace x) s)"
  by (induction s rule: sub_spaces.induct) auto

lemma split_ws_sub_spaces_dropWhile:
  "split_ws (sub_spaces s) = split_ws (sub_spaces (dropWhile isspace s))"
proof (cases s)
  case Nil
  then show ?thesis by simp
next
  case (Cons c cs)
  show ?thesis
  proof (cases "isspace c")
    case True
    have "split_ws (sub_spaces (c # cs)) = split_ws (sub_spaces (dropWhile isspace cs))"
      using True by (simp add: split_ws_Cons_space)
    then show ?thesis unfolding Cons using True by simp
  next
    case False
    then show ?thesis unfolding Cons by simp
  qed
qed

lemma split_ws_sub_spaces: "split_ws (sub_spaces s) = split_ws s"
proof (induction s rule: split_ws.induct)
  case (1 s)
  let ?ns = "\<lambda>x. \<not> isspace x"
  show ?case
  proof (cases "dropWhile isspace s")
    case Nil
    have "split_ws (sub_spaces s) = split_ws (sub_spaces [])"
      by (subst split_ws_sub_spaces_dropWhile) (simp only: Nil)
    moreover have "split_ws s = []"
      by (subst split_ws.simps) (simp only: Nil list.case)
    ultimately show ?thesis by simp
  next
    case (Cons c cs)
    have "dropWhile isspace s \<noteq> []" unfolding Cons by simp
    then have "\<not> isspace (hd (dropWhile isspace s))" by (rule hd_dropWhile)
    then have c: "\<not> isspace c" unfolding Cons by simp
    have "split_ws (sub_spaces s) = split_ws (sub_spaces (c # cs))"
      by (subst split_ws_sub_spaces_dropWhile) (simp only: Cons)
    also have "\<dots> = split_ws (c # sub_spaces cs)" using c by simp
    also have "\<dots> = (c # takeWhile ?ns (sub_spaces cs)) # split_ws (dropWhile ?ns (sub_spaces cs))"
      using c by (rule split_ws_Cons_word)
    also have "\<dots> = (c # takeWhile ?ns cs) # split_ws (sub_spaces (dropWhile ?ns cs))"
      by (simp only: takeWhile_sub_spaces dropWhile_sub_spaces)
    also have "\<dots> = (c # takeWhile ?ns cs) # split_ws (dropWhile ?ns cs)"
      by (simp only: "1.IH" [OF Cons])
    also have "\<dots> = split_ws s"
      by (subst (2) split_ws.simps) (simp only: Cons list.case)
    finally show ?thesis .
  qed
qed

lemma split_ws_cleaned: "split_ws (cleaned s) = split_ws (sub_slash_n s)"
  by (simp only: cleaned_def split_ws_strip split_ws_sub_spaces)

lemma split_ws_word_sep:
  assumes "w \<noteq> []" and "\<forall>c\<in>set w. \<not> isspace c" and "isspace d"
  shows "split_ws (w @ d # s) = w # split_ws s"
proof -
  let ?ns = "\<lambda>x. \<not> isspace x"
  from assms(1) obtain c cs where w: "w = c # cs" by (cases w) auto
  from assms(2) have c: "\<not> isspace c" and cs: "\<forall>x\<in>set cs. \<not> isspace x"
    unfolding w by simp_all
  have t: "takeWhile ?ns (cs @ d # s) = cs"
    using cs assms(3) by (simp add: takeWhile_append)
  have r: "dropWhile ?ns (cs @ d # s) = d # s"
    using cs assms(3) by (simp add: dropWhile_append)
  have "split_ws (c # (cs @ d # s)) = (c # cs) # split_ws (d # s)"
    using split_ws_Cons_word [OF c, of "cs @ d # s"] unfolding t r .
  also have "\<dots> = (c # cs) # split_ws s"
    using assms(3) by (simp only: split_ws_Cons_space)
  finally show ?thesis unfolding w by simp
qed

lemma split_ws_word:
  assumes "w \<noteq> []" and "\<forall>c\<in>set w. \<not> isspace c"
  shows "split_ws w = [w]"
proof -
  have "split_ws (w @ CHR '' '' # []) = w # split_ws []"
    using assms by (intro split_ws_word_sep) simp_all
  moreover have "split_ws (w @ [CHR '' '']) = split_ws w"
    by (rule split_ws_append_space) simp
  ultimately show ?thesis by simp
qed

lemma has_marker_join1:
  "list_all (\<lambda>item. \<not> has_marker item) items \<Longrightarrow> d \<noteq> CHR ''/'' \<Longrightarrow> d \<noteq> CHR ''n'' \<Longrightarrow>
   \<not> has_marker (join [d] items)"
  by (induction "[d]" items rule: join.induct) (auto simp: has_marker_append_sep)

lemma has_marker_join_comma:
  "list_all (\<lambda>item. \<not> has_marker item) items \<Longrightarrow> \<not> has_marker (join '', '' items)"
proof (induction "'', ''" items rule: join.induct)
  case 1
  then show ?case by simp
next
  case (2 x)
  then show ?case by simp
next
  case (3 x y ys)
  then have "\<not> has_marker (join '', '' (y # ys))" and x: "\<not> has_marker x" by simp_all
  then have "\<not> has_marker (CHR '' '' # join '', '' (y # ys))"
    by (simp only: has_marker_Cons char.inject simp_thms)
  with x have "\<not> has_marker (x @ CHR '','' # CHR '' '' # join '', '' (y # ys))"
    by (intro has_marker_append_sep) simp_all
  then show ?case by simp
qed

lemma split_ws_join1:
  "list_all (\<lambda>item. item \<noteq> [] \<and> list_all (\<lambda>c. \<not> isspace c) item) items \<Longrightarrow> isspace d \<Longrightarrow>
   split_ws (join [d] items) = items"
proof (induction "[d]" items rule: join.induct)
  case 1
  then show ?case by simp
next
  case (2 x)
  then show ?case by (simp add: split_ws_word list_all_iff)
next
  case (3 x y ys)
  then have x: "x \<noteq> []" "\<forall>c\<in>set x. \<not> isspace c"
    and ih: "split_ws (join [d] (y # ys)) = y # ys"
    by (simp_all add: list_all_iff)
  have "split_ws (x @ d # join [d] (y # ys)) = x # split_ws (join [d] (y # ys))"
    using x "3.prems"(2) by (rule split_ws_word_sep)
  then show ?case unfolding ih by simp
qed

lemma split_ws_join_comma:
  "list_all (\<lambda>item. item \<noteq> [] \<and> list_all (\<lambda>c. \<not> isspace c) item) items \<Longrightarrow> items \<noteq> [] \<Longrightarrow>
   split_ws (join '', '' items) = map (\<lambda>w. w @ '','') (butlast items) @ [last items]"
proof (induction "'', ''" items rule: join.induct)
  case 1
  then show ?case by simp
next
  case (2 x)
  then show ?case by (simp add: split_ws_word list_all_iff)
next
  case (3 x y ys)
  then have x: "x @ '','' \<noteq> []" "\<forall>c\<in>set (x @ '',''). \<not> isspace c"
    and ih: "split_ws (join '', '' (y # ys))
               = map (\<lambda>w. w @ '','') (butlast (y # ys)) @ [last (y # ys)]"
    by (simp_all add: list_all_iff)
  have "split_ws ((x @ '','') @ CHR '' '' # join '', '' (y # ys))
          = (x @ '','') # split_ws (join '', '' (y # ys))"
    using x by (rule split_ws_word_sep) simp
  then show ?case unfolding ih by simp
qed

lemma manual_tokens:
  "separator_var a \<noteq> SepAuto \<Longrightarrow> \<not> has_marker s \<Longrightarrow> clean_and_split_string a s = split_ws s"
  by (cases "separator_var a")
     (simp_all add: clean_and_split_string_def Let_def strip_words split_ws_cleaned sub_slash_n_id)

subsection \<open>Facts about the dictionary text\<close>

lemma map_enumerate_index:
  "map (\<lambda>(i, item). f i item) (enumerate 0 items) = map (\<lambda>i. f i (items ! i)) [0..<length items]"
  by (rule nth_equalityI) (simp_all add: nth_enumerate_eq)

lemma map_index: "map f items = map (\<lambda>i. f (items ! i)) [0..<length items]"
  by (rule nth_equalityI) simp_all

lemma first_word_entry:
  "(case first_word_key_value item of (key, val) \<Rightarrow> dict_entry key val)
   = (let words = split_ws item;
          key = (if words = [] then item else hd words);
          val = (if length words > 1 then join '' '' (tl words) else item)
      in dquote # key @ dquote # '': '' @ dquote # val @ [dquote])"
  by (cases "split_ws item")
     (simp_all add: first_word_key_value_def dict_entry_def quoted_def Let_def)

lemma count_list_join:
  "count_list (join sep xs) c
   = sum_list (map (\<lambda>x. count_list x c) xs) + (length xs - 1) * count_list sep c"
  by (induction sep xs rule: join.induct) simp_all

lemma set_join: "set (join sep xs) \<subseteq> set sep \<union> \<Union> (set ` set xs)"
  by (induction sep xs rule: join.induct) auto

lemma split_ws_set: "w \<in> set (split_ws s) \<Longrightarrow> set w \<subseteq> set s"
proof (induction s arbitrary: w rule: split_ws.induct)
  case (1 s)
  show ?case
  proof (cases "dropWhile isspace s")
    case Nil
    then have "split_ws s = []" by (subst split_ws.simps) (simp only: Nil list.case)
    with 1 show ?thesis by simp
  next
    case (Cons c cs)
    have eq: "split_ws s = (c # takeWhile (\<lambda>x. \<not> isspace x) cs)
                # split_ws (dropWhile (\<lambda>x. \<not> isspace x) cs)"
      by (subst split_ws.simps) (simp only: Cons list.case)
    have sub: "set (c # cs) \<subseteq> set s"
      using set_dropWhileD [of _ isspace s] unfolding Cons by blast
    from "1.prems" eq consider "w = c # takeWhile (\<lambda>x. \<not> isspace x) cs"
      | "w \<in> set (split_ws (dropWhile (\<lambda>x. \<not> isspace x) cs))" by auto
    then show ?thesis
    proof cases
      case 1
      have "set (takeWhile (\<lambda>x. \<not> isspace x) cs) \<subseteq> set cs"
        by (rule set_takeWhileD [THEN conjunct1, THEN subsetI]) 
      then show ?thesis using sub unfolding 1 by auto
    next
      case 2
      from "1.IH" [OF Cons 2] have "set w \<subseteq> set (dropWhile (\<lambda>x. \<not> isspace x) cs)" .
      moreover have "set (dropWhile (\<lambda>x. \<not> isspace x) cs) \<subseteq> set cs"
        by (rule subsetI) (rule set_dropWhileD)
      ultimately show ?thesis using sub by auto
    qed
  qed
qed


lemma show_nat_no_quote: "dquote \<notin> set (show_nat n)"
proof -
  have "dquote \<notin> set ''0123456789''" by simp
  then show ?thesis using show_nat_digits [of n] by blast
qed

lemma count_entries:
  assumes "\<forall>i<n. dquote \<notin> set (k i) \<and> dquote \<notin> set (v i)"
  shows "count_list (''{'' @ join '', '' (map (\<lambda>i. dquote # k i @ dquote # '': '' @ dquote # v i @ [dquote])
                                              [0..<n]) @ ''}'') dquote = 4 * n"
proof -
  define e where "e i = dquote # k i @ dquote # '': '' @ dquote # v i @ [dquote]" for i
  have 4: "count_list (e i) dquote = 4" if "i < n" for i
    using assms that by (simp add: e_def)
  have m: "map (\<lambda>i. count_list (e i) dquote) [0..<n] = map (\<lambda>i. 4) [0..<n]"
    by (rule map_cong [OF refl]) (simp only: 4 set_upt atLeastLessThan_iff)
  have "sum_list (map (\<lambda>i. count_list (e i) dquote) [0..<n]) = sum_list (map (\<lambda>i. 4) [0..<n])"
    by (simp only: m)
  also have "\<dots> = 4 * n" by (simp add: sum_list_triv)
  finally have "sum_list (map (\<lambda>i. count_list (e i) dquote) [0..<n]) = 4 * n" .
  then have "count_list (''{'' @ join '', '' (map e [0..<n]) @ ''}'') dquote = 4 * n"
    by (simp add: count_list_join comp_def)
  then show ?thesis unfolding e_def .
qed

lemma first_word_no_quote:
  assumes "dquote \<notin> set item"
  shows "dquote \<notin> set (if split_ws item = [] then item else hd (split_ws item))"
    and "dquote \<notin> set (if length (split_ws item) > 1 then join '' '' (tl (split_ws item)) else item)"
proof -
  have w: "dquote \<notin> set w" if "w \<in> set (split_ws item)" for w
    using split_ws_set [OF that] assms by blast
  show "dquote \<notin> set (if split_ws item = [] then item else hd (split_ws item))"
    using assms w [of "hd (split_ws item)"] by simp
  have "dquote \<notin> set (join '' '' (tl (split_ws item)))"
  proof
    assume "dquote \<in> set (join '' '' (tl (split_ws item)))"
    then have "dquote \<in> set '' '' \<union> \<Union> (set ` set (tl (split_ws item)))"
      using set_join by blast
    then obtain w where "w \<in> set (tl (split_ws item))" "dquote \<in> set w" by auto
    then show False using w [of w] by (cases "split_ws item") auto
  qed
  then show "dquote \<notin> set (if length (split_ws item) > 1 then join '' '' (tl (split_ws item)) else item)"
    using assms by simp
qed

subsection \<open>Separator detection\<close>

text \<open>
  C5. Detection returns the comma when the text holds at least one comma and at least as
  many commas as newlines; otherwise the newline when the text holds at least one
  newline; otherwise, and on the empty text, the space.
\<close>

theorem auto_detect_separator_rule:
  "(0 < count_list s CHR '','' \<and> count_list s newline \<le> count_list s CHR '',''
      \<longrightarrow> auto_detect_separator s = CHR '','')
   \<and> (\<not> (0 < count_list s CHR '','' \<and> count_list s newline \<le> count_list s CHR '','')
        \<and> 0 < count_list s newline
      \<longrightarrow> auto_detect_separator s = newline)
   \<and> (\<not> (0 < count_list s CHR '','' \<and> count_list s newline \<le> count_list s CHR '','')
        \<and> \<not> 0 < count_list s newline
      \<longrightarrow> auto_detect_separator s = CHR '' '')
   \<and> auto_detect_separator [] = CHR '' ''"
  by (cases "s = []") (auto simp: auto_detect_separator_def Let_def)

theorem auto_detect_separator_rule_witness:
  "auto_detect_separator ''a,b,c'' = CHR '',''
   \<and> auto_detect_separator [CHR ''a'', newline, CHR ''b''] = newline
   \<and> auto_detect_separator ''a b'' = CHR '' ''"
  using auto_detect_separator_rule [of "''a,b,c''"]
    auto_detect_separator_rule [of "[CHR ''a'', newline, CHR ''b'']"]
    auto_detect_separator_rule [of "''a b''"]
  by simp

subsection \<open>Tokenization with a manual separator\<close>

text \<open>
  C3. With a manual separator choice (space, comma or newline) the items are the
  whitespace-separated words of the normalized text, whichever of the three is chosen:
  two manual choices give the same items for the same input. The choice decides the
  string that joins the items again for the format type "none".
\<close>

theorem manual_separator_splits_on_whitespace:
  "separator_var a \<in> {SepSpace, SepComma, SepNewline} \<Longrightarrow>
   separator_var b \<in> {SepSpace, SepComma, SepNewline} \<Longrightarrow>
   clean_and_split_string a raw = split_ws (cleaned raw)
   \<and> clean_and_split_string a raw = clean_and_split_string b raw
   \<and> format_with_separator_style a items FmtNone =
       Some (join (case separator_var a of SepComma \<Rightarrow> '', '' | SepNewline \<Rightarrow> [newline] | _ \<Rightarrow> '' '') items)"
  by (auto simp: clean_and_split_string_def strip_words format_with_separator_style_def)

theorem manual_separator_splits_on_whitespace_witness:
  "separator_var (snapshot ''a,b  c'' SepComma FmtNone KeyNone []) \<in> {SepSpace, SepComma, SepNewline}
   \<and> separator_var (snapshot ''a,b  c'' SepNewline FmtNone KeyNone []) \<in> {SepSpace, SepComma, SepNewline}
   \<and> clean_and_split_string (snapshot ''a,b  c'' SepComma FmtNone KeyNone []) ''a,b  c'' = [''a,b'', ''c'']
   \<and> clean_and_split_string (snapshot ''a,b  c'' SepNewline FmtNone KeyNone []) ''a,b  c'' = [''a,b'', ''c'']
   \<and> format_with_separator_style (snapshot ''a,b  c'' SepComma FmtNone KeyNone []) [''a,b'', ''c''] FmtNone
       = Some ''a,b, c''"
proof -
  let ?a = "snapshot ''a,b  c'' SepComma FmtNone KeyNone []"
  let ?b = "snapshot ''a,b  c'' SepNewline FmtNone KeyNone []"
  have ha: "separator_var ?a \<in> {SepSpace, SepComma, SepNewline}"
    and hb: "separator_var ?b \<in> {SepSpace, SepComma, SepNewline}"
    by (simp_all add: snapshot_def)
  have w: "split_ws (cleaned ''a,b  c'') = [''a,b'', ''c'']" by code_simp
  have s: "separator_var ?a = SepComma" by (simp add: snapshot_def)
  note t = manual_separator_splits_on_whitespace [OF ha hb, of "''a,b  c''" "[''a,b'', ''c'']"]
  have 1: "clean_and_split_string ?a ''a,b  c'' = [''a,b'', ''c'']"
    using t by (simp add: w)
  have 2: "clean_and_split_string ?b ''a,b  c'' = [''a,b'', ''c'']"
    using t [THEN conjunct2, THEN conjunct1] 1 by simp
  have 3: "format_with_separator_style ?a [''a,b'', ''c''] FmtNone = Some ''a,b, c''"
    using t [THEN conjunct2, THEN conjunct2] by (simp add: s)
  show ?thesis by (intro conjI ha hb 1 2 3)
qed

subsection \<open>Refused calls\<close>

text \<open>
  C9. When the input is empty or consists of whitespace only, \<open>process_string\<close> opens the
  warning \<open>EmptyInput\<close> and changes nothing else. When the input is not whitespace-only
  and its tokenization yields no item, it opens the warning \<open>NoItemsFound\<close> and changes
  nothing else. In both cases the output widget keeps its text.
\<close>

theorem process_string_refusals:
  "(list_all isspace (input_text a) \<longrightarrow>
      process_string a = a\<lparr>shown := shown a @ [EmptyInput]\<rparr>
      \<and> output_text (process_string a) = output_text a)
   \<and> (\<not> list_all isspace (input_text a)
        \<and> clean_and_split_string a (strip (input_text a)) = [] \<longrightarrow>
      process_string a = a\<lparr>shown := shown a @ [NoItemsFound]\<rparr>
      \<and> output_text (process_string a) = output_text a)"
  by (simp add: process_string_def Let_def showwarning_def strip_Nil_iff list_all_iff)

theorem process_string_refusals_witness:
  "list_all isspace (input_text (snapshot ''  '' SepAuto FmtList KeyNone []))
   \<and> process_string (snapshot ''  '' SepAuto FmtList KeyNone [])
       = (snapshot ''  '' SepAuto FmtList KeyNone [])\<lparr>shown := [EmptyInput]\<rparr>
   \<and> \<not> list_all isspace (input_text (snapshot '' , '' SepAuto FmtList KeyNone []))
   \<and> clean_and_split_string (snapshot '' , '' SepAuto FmtList KeyNone [])
        (strip (input_text (snapshot '' , '' SepAuto FmtList KeyNone []))) = []
   \<and> process_string (snapshot '' , '' SepAuto FmtList KeyNone [])
       = (snapshot '' , '' SepAuto FmtList KeyNone [])\<lparr>shown := [NoItemsFound]\<rparr>
   \<and> output_text (process_string (snapshot '' , '' SepAuto FmtList KeyNone [])) = ''previous output''"
proof -
  let ?a = "snapshot ''  '' SepAuto FmtList KeyNone []"
  let ?b = "snapshot '' , '' SepAuto FmtList KeyNone []"
  have ha: "list_all isspace (input_text ?a)" by (simp add: snapshot_def)
  have hb: "\<not> list_all isspace (input_text ?b)" by (simp add: snapshot_def)
  have hc: "clean_and_split_string ?b (strip (input_text ?b)) = []" by code_simp
  have sa: "shown ?a = []" and sb: "shown ?b = []" and ob: "output_text ?b = ''previous output''"
    by (simp_all add: snapshot_def)
  have 1: "process_string ?a = ?a\<lparr>shown := [EmptyInput]\<rparr>"
    using process_string_refusals [of ?a] ha by (simp add: sa)
  have 2: "process_string ?b = ?b\<lparr>shown := [NoItemsFound]\<rparr>"
    and 3: "output_text (process_string ?b) = ''previous output''"
    using process_string_refusals [of ?b] hb hc by (simp_all add: sb ob)
  show ?thesis by (intro conjI ha hb hc 1 2 3)
qed

subsection \<open>The displayed output\<close>



subsection \<open>Auto-detect with the format type "none"\<close>

text \<open>
  C2, as the code has it. With the separator choice auto-detect and the format type
  "none", \<open>format_with_separator_style\<close> returns \<open>None\<close> (its join branches test for the
  three manual choices only) and the branch of \<open>process_string\<close> for "none" adds nothing:
  the displayed text is the count header alone, whichever separator detection resolved to.
\<close>

theorem auto_none_shows_count_only:
  "separator_var a = SepAuto \<Longrightarrow> format_type a = FmtNone \<Longrightarrow>
   strip (input_text a) \<noteq> [] \<Longrightarrow>
   clean_and_split_string a (strip (input_text a)) \<noteq> [] \<Longrightarrow>
   process_string a =
     a\<lparr>output_text :=
         ''Item count: ''
         @ show_nat (count_actual_content (clean_and_split_string a (strip (input_text a))))
         @ [newline, newline]\<rparr>"
  by (simp add: process_string_def Let_def display_def format_with_separator_style_def)

theorem auto_none_shows_count_only_witness:
  "separator_var (snapshot ''a,b,c'' SepAuto FmtNone KeyNone []) = SepAuto
   \<and> format_type (snapshot ''a,b,c'' SepAuto FmtNone KeyNone []) = FmtNone
   \<and> strip (input_text (snapshot ''a,b,c'' SepAuto FmtNone KeyNone [])) \<noteq> []
   \<and> clean_and_split_string (snapshot ''a,b,c'' SepAuto FmtNone KeyNone [])
        (strip (input_text (snapshot ''a,b,c'' SepAuto FmtNone KeyNone []))) = [''a'', ''b'', ''c'']
   \<and> process_string (snapshot ''a,b,c'' SepAuto FmtNone KeyNone [])
       = (snapshot ''a,b,c'' SepAuto FmtNone KeyNone [])
           \<lparr>output_text := ''Item count: 3'' @ [newline, newline]\<rparr>"
proof -
  let ?a = "snapshot ''a,b,c'' SepAuto FmtNone KeyNone []"
  have h1: "separator_var ?a = SepAuto" and h2: "format_type ?a = FmtNone"
    by (simp_all add: snapshot_def)
  have h3: "strip (input_text ?a) \<noteq> []" by code_simp
  have items: "clean_and_split_string ?a (strip (input_text ?a)) = [''a'', ''b'', ''c'']"
    by code_simp
  have h4: "clean_and_split_string ?a (strip (input_text ?a)) \<noteq> []"
    unfolding items by simp
  have n: "show_nat (count_actual_content [''a'', ''b'', ''c'']) = ''3''"
    by code_simp
  have r: "process_string ?a = ?a\<lparr>output_text := ''Item count: 3'' @ [newline, newline]\<rparr>"
    using auto_none_shows_count_only [OF h1 h2 h3 h4] unfolding items n by simp
  show ?thesis by (intro conjI h1 h2 h3 items r)
qed

text \<open>
  For the input \<open>a,b,c\<close> detection yields the comma and the items are a, b, c, but the
  displayed text ends after the blank line: the body is empty, not \<open>a, b, c\<close>.
\<close>

theorem auto_none_body_counterexample:
  "auto_detect_separator (cleaned ''a,b,c'') = CHR '',''
   \<and> clean_and_split_string (snapshot ''a,b,c'' SepAuto FmtNone KeyNone []) ''a,b,c''
       = [''a'', ''b'', ''c'']
   \<and> output_text (process_string (snapshot ''a,b,c'' SepAuto FmtNone KeyNone []))
       = ''Item count: 3'' @ [newline, newline]
   \<and> output_text (process_string (snapshot ''a,b,c'' SepAuto FmtNone KeyNone []))
       \<noteq> ''Item count: 3'' @ [newline, newline] @ ''a, b, c''"
  by code_simp

subsection \<open>A user-defined key without a prefix\<close>

text \<open>
  C1. \<open>format_as_dict\<close> opens the warning \<open>MissingPrefix\<close> and returns \<open>None\<close>;
  \<open>process_string\<close> treats that \<open>None\<close> like the one of the key type "none" and goes on.
  For the input \<open>foo bar\<close> with the dictionary format, user-defined keys and an empty
  prefix, the earlier output is replaced: with the separator choice space by the count
  header and the items joined by a space, with auto-detect by the count header alone.
\<close>

theorem missing_prefix_still_displays:
  "process_string (snapshot ''foo bar'' SepSpace FmtDict KeyUserDefined [])
     = (snapshot ''foo bar'' SepSpace FmtDict KeyUserDefined [])
         \<lparr>output_text := ''Item count: 2'' @ [newline, newline] @ ''foo bar'',
          shown := [MissingPrefix]\<rparr>
   \<and> process_string (snapshot ''foo bar'' SepAuto FmtDict KeyUserDefined [])
     = (snapshot ''foo bar'' SepAuto FmtDict KeyUserDefined [])
         \<lparr>output_text := ''Item count: 2'' @ [newline, newline],
          shown := [MissingPrefix]\<rparr>"
  by code_simp

subsection \<open>Dictionary entries\<close>

text \<open>
  C7. For the key types index, auto-generated, user-defined (with a prefix that is not
  empty after stripping) and first word, \<open>format_as_dict\<close> returns the text
  \<open>{e0, e1, ...}\<close> that holds exactly one entry per item, in the order of the items.
  The entry at position \<open>i\<close> is \<open>"i": "item"\<close>, \<open>"item_(i+1)": "item"\<close>,
  \<open>"prefix_(i+1)": "item"\<close>, or \<open>"key": "value"\<close> with the first word of the item as
  key and the other words joined by single spaces as value (the item itself is the value
  when it has one word, and both key and value when it has none). For the key type "none"
  there are no entries: the result is \<open>None\<close>. Keys and values are copied between the
  double quotes as they are, so when neither an item nor the prefix contains a double
  quote, the double quotes of the text are those around the keys and values: four for
  each item.
\<close>

theorem dict_entries_one_per_item:
  "(dict_key_type a = KeyNone \<longrightarrow> fst (format_as_dict a items) = None)
   \<and> (dict_key_type a = KeyIndex \<longrightarrow>
        fst (format_as_dict a items)
          = Some (''{'' @ join '', ''
                    (map (\<lambda>i. dquote # show_nat i @ dquote # '': '' @ dquote # items ! i @ [dquote])
                         [0..<length items]) @ ''}''))
   \<and> (dict_key_type a = KeyAuto \<longrightarrow>
        fst (format_as_dict a items)
          = Some (''{'' @ join '', ''
                    (map (\<lambda>i. dquote # (''item_'' @ show_nat (i + 1)) @ dquote # '': ''
                                 @ dquote # items ! i @ [dquote])
                         [0..<length items]) @ ''}''))
   \<and> (dict_key_type a = KeyUserDefined \<and> strip (user_prefix a) \<noteq> [] \<longrightarrow>
        fst (format_as_dict a items)
          = Some (''{'' @ join '', ''
                    (map (\<lambda>i. dquote # (strip (user_prefix a) @ ''_'' @ show_nat (i + 1)) @ dquote # '': ''
                                 @ dquote # items ! i @ [dquote])
                         [0..<length items]) @ ''}''))
   \<and> (dict_key_type a = KeyFirstWord \<longrightarrow>
        fst (format_as_dict a items)
          = Some (''{'' @ join '', ''
                    (map (\<lambda>i. let words = split_ws (items ! i);
                                  key = (if words = [] then items ! i else hd words);
                                  val = (if length words > 1 then join '' '' (tl words) else items ! i)
                              in dquote # key @ dquote # '': '' @ dquote # val @ [dquote])
                         [0..<length items]) @ ''}''))
   \<and> (list_all (\<lambda>item. dquote \<notin> set item) items
        \<and> (dict_key_type a = KeyUserDefined \<longrightarrow> dquote \<notin> set (strip (user_prefix a))) \<longrightarrow>
        (\<forall>out. fst (format_as_dict a items) = Some out \<longrightarrow>
           count_list out dquote = 4 * length items))"
proof -
  have k_none: "fst (format_as_dict a items) = None" if "dict_key_type a = KeyNone"
    using that by (simp add: format_as_dict_def)
  have k_index: "fst (format_as_dict a items)
          = Some (''{'' @ join '', ''
                    (map (\<lambda>i. dquote # show_nat i @ dquote # '': '' @ dquote # items ! i @ [dquote])
                         [0..<length items]) @ ''}'')" if "dict_key_type a = KeyIndex"
    using that
    by (simp add: format_as_dict_def dict_braces_def dict_entry_def quoted_def map_enumerate_index)
  have k_auto: "fst (format_as_dict a items)
          = Some (''{'' @ join '', ''
                    (map (\<lambda>i. dquote # (''item_'' @ show_nat (i + 1)) @ dquote # '': ''
                                 @ dquote # items ! i @ [dquote])
                         [0..<length items]) @ ''}'')" if "dict_key_type a = KeyAuto"
    using that
    by (simp add: format_as_dict_def dict_braces_def dict_entry_def quoted_def map_enumerate_index)
  have k_user: "fst (format_as_dict a items)
          = Some (''{'' @ join '', ''
                    (map (\<lambda>i. dquote # (strip (user_prefix a) @ ''_'' @ show_nat (i + 1)) @ dquote # '': ''
                                 @ dquote # items ! i @ [dquote])
                         [0..<length items]) @ ''}'')"
    if "dict_key_type a = KeyUserDefined" "strip (user_prefix a) \<noteq> []"
    using that
    by (simp add: format_as_dict_def Let_def dict_braces_def dict_entry_def quoted_def
          map_enumerate_index)
  have k_first: "fst (format_as_dict a items)
          = Some (''{'' @ join '', ''
                    (map (\<lambda>i. let words = split_ws (items ! i);
                                  key = (if words = [] then items ! i else hd words);
                                  val = (if length words > 1 then join '' '' (tl words) else items ! i)
                              in dquote # key @ dquote # '': '' @ dquote # val @ [dquote])
                         [0..<length items]) @ ''}'')" if k: "dict_key_type a = KeyFirstWord"
  proof -
    have "fst (format_as_dict a items)
            = Some (''{'' @ join '', ''
                (map (\<lambda>item. case first_word_key_value item of (key, val) \<Rightarrow> dict_entry key val)
                     items) @ ''}'')"
      by (simp add: format_as_dict_def k dict_braces_def)
    also have "map (\<lambda>item. case first_word_key_value item of (key, val) \<Rightarrow> dict_entry key val) items
        = map (\<lambda>i. case first_word_key_value (items ! i) of (key, val) \<Rightarrow> dict_entry key val)
              [0..<length items]"
      by (rule map_index)
    finally show ?thesis unfolding first_word_entry .
  qed
  have quotes: "count_list out dquote = 4 * length items"
    if q: "list_all (\<lambda>item. dquote \<notin> set item) items"
      and p: "dict_key_type a = KeyUserDefined \<longrightarrow> dquote \<notin> set (strip (user_prefix a))"
      and t: "fst (format_as_dict a items) = Some out" for out
  proof -
    have item: "dquote \<notin> set (items ! i)" if "i < length items" for i
      using q that by (simp add: list_all_length)
    show ?thesis
    proof (cases "dict_key_type a")
      case KeyNone
      from k_none [OF this] t show ?thesis by simp
    next
      case KeyIndex
      from k_index [OF this] t have "out = ''{'' @ join '', ''
                    (map (\<lambda>i. dquote # show_nat i @ dquote # '': '' @ dquote # items ! i @ [dquote])
                         [0..<length items]) @ ''}''" by simp
      then show ?thesis
        using count_entries [of "length items" show_nat "\<lambda>i. items ! i"] item show_nat_no_quote
        by simp
    next
      case KeyAuto
      from k_auto [OF this] t have "out = ''{'' @ join '', ''
                    (map (\<lambda>i. dquote # (''item_'' @ show_nat (i + 1)) @ dquote # '': ''
                                 @ dquote # items ! i @ [dquote])
                         [0..<length items]) @ ''}''" by simp
      moreover have "\<forall>i<length items. dquote \<notin> set (''item_'' @ show_nat (i + 1))
                        \<and> dquote \<notin> set (items ! i)"
        using item show_nat_no_quote by simp
      ultimately show ?thesis
        using count_entries [of "length items" "\<lambda>i. ''item_'' @ show_nat (i + 1)" "\<lambda>i. items ! i"]
        by simp
    next
      case KeyFirstWord
      from k_first [OF this] t have "out = ''{'' @ join '', ''
                    (map (\<lambda>i. dquote # (if split_ws (items ! i) = [] then items ! i
                                         else hd (split_ws (items ! i))) @ dquote # '': '' @
                               dquote # (if length (split_ws (items ! i)) > 1
                                         then join '' '' (tl (split_ws (items ! i)))
                                         else items ! i) @ [dquote])
                         [0..<length items]) @ ''}''" by (simp only: Let_def option.inject)
      moreover have "\<forall>i<length items.
             dquote \<notin> set (if split_ws (items ! i) = [] then items ! i else hd (split_ws (items ! i)))
           \<and> dquote \<notin> set (if length (split_ws (items ! i)) > 1
                              then join '' '' (tl (split_ws (items ! i))) else items ! i)"
        using first_word_no_quote item by blast
      ultimately show ?thesis
        using count_entries [of "length items"
            "\<lambda>i. if split_ws (items ! i) = [] then items ! i else hd (split_ws (items ! i))"
            "\<lambda>i. if length (split_ws (items ! i)) > 1
                  then join '' '' (tl (split_ws (items ! i))) else items ! i"]
        by simp
    next
      case KeyUserDefined
      show ?thesis
      proof (cases "strip (user_prefix a) = []")
        case True
        then have "fst (format_as_dict a items) = None"
          by (simp add: format_as_dict_def KeyUserDefined Let_def)
        with t show ?thesis by simp
      next
        case False
        from k_user [OF KeyUserDefined False] t have "out = ''{'' @ join '', ''
                    (map (\<lambda>i. dquote # (strip (user_prefix a) @ ''_'' @ show_nat (i + 1)) @ dquote # '': ''
                                 @ dquote # items ! i @ [dquote])
                         [0..<length items]) @ ''}''" by simp
        moreover have "\<forall>i<length items.
              dquote \<notin> set (strip (user_prefix a) @ ''_'' @ show_nat (i + 1))
            \<and> dquote \<notin> set (items ! i)"
          using item show_nat_no_quote p KeyUserDefined by simp
        ultimately show ?thesis
          using count_entries [of "length items"
              "\<lambda>i. strip (user_prefix a) @ ''_'' @ show_nat (i + 1)" "\<lambda>i. items ! i"]
          by simp
      qed
    qed
  qed
  from k_none k_index k_auto k_user k_first quotes show ?thesis by blast
qed

theorem dict_entries_one_per_item_witness:
  "dict_key_type (snapshot ''x y'' SepAuto FmtDict KeyIndex []) = KeyIndex
   \<and> fst (format_as_dict (snapshot ''x y'' SepAuto FmtDict KeyIndex []) [''x'', ''y''])
       = Some (''{'' @ dquote # ''0'' @ dquote # '': '' @ dquote # ''x'' @ dquote # '', ''
                     @ dquote # ''1'' @ dquote # '': '' @ dquote # ''y'' @ dquote # ''}'')
   \<and> dict_key_type (snapshot ''a b c, d'' SepAuto FmtDict KeyFirstWord []) = KeyFirstWord
   \<and> fst (format_as_dict (snapshot ''a b c, d'' SepAuto FmtDict KeyFirstWord []) [''a b c'', ''d''])
       = Some (''{'' @ dquote # ''a'' @ dquote # '': '' @ dquote # ''b c'' @ dquote # '', ''
                     @ dquote # ''d'' @ dquote # '': '' @ dquote # ''d'' @ dquote # ''}'')
   \<and> dict_key_type (snapshot ''x y'' SepSpace FmtDict KeyUserDefined '' k '') = KeyUserDefined
   \<and> strip (user_prefix (snapshot ''x y'' SepSpace FmtDict KeyUserDefined '' k '')) = ''k''
   \<and> list_all (\<lambda>item. dquote \<notin> set item) [''x'', ''y'']
   \<and> fst (format_as_dict (snapshot ''x y'' SepSpace FmtDict KeyUserDefined '' k '') [''x'', ''y''])
       = Some (''{'' @ dquote # ''k_1'' @ dquote # '': '' @ dquote # ''x'' @ dquote # '', ''
                     @ dquote # ''k_2'' @ dquote # '': '' @ dquote # ''y'' @ dquote # ''}'')
   \<and> count_list (''{'' @ dquote # ''k_1'' @ dquote # '': '' @ dquote # ''x'' @ dquote # '', ''
                       @ dquote # ''k_2'' @ dquote # '': '' @ dquote # ''y'' @ dquote # ''}'') dquote
       = 4 * 2"
proof -
  let ?a = "snapshot ''x y'' SepAuto FmtDict KeyIndex []"
  let ?b = "snapshot ''a b c, d'' SepAuto FmtDict KeyFirstWord []"
  let ?c = "snapshot ''x y'' SepSpace FmtDict KeyUserDefined '' k ''"
  have ka: "dict_key_type ?a = KeyIndex" by (simp add: snapshot_def)
  have kb: "dict_key_type ?b = KeyFirstWord" by (simp add: snapshot_def)
  have kc: "dict_key_type ?c = KeyUserDefined" by (simp add: snapshot_def)
  have "strip '' k '' = ''k''" by code_simp
  then have pc: "strip (user_prefix ?c) = ''k''" by (simp add: snapshot_def)
  have qc: "list_all (\<lambda>item. dquote \<notin> set item) [''x'', ''y'']" by simp
  have ea: "''{'' @ join '', ''
              (map (\<lambda>i. dquote # show_nat i @ dquote # '': '' @ dquote # [''x'', ''y''] ! i @ [dquote])
                   [0..<length [''x'', ''y'']]) @ ''}''
            = ''{'' @ dquote # ''0'' @ dquote # '': '' @ dquote # ''x'' @ dquote # '', ''
                     @ dquote # ''1'' @ dquote # '': '' @ dquote # ''y'' @ dquote # ''}''"
    by code_simp
  have eb: "''{'' @ join '', ''
              (map (\<lambda>i. let words = split_ws ([''a b c'', ''d''] ! i);
                            key = (if words = [] then [''a b c'', ''d''] ! i else hd words);
                            val = (if length words > 1 then join '' '' (tl words)
                                   else [''a b c'', ''d''] ! i)
                        in dquote # key @ dquote # '': '' @ dquote # val @ [dquote])
                   [0..<length [''a b c'', ''d'']]) @ ''}''
            = ''{'' @ dquote # ''a'' @ dquote # '': '' @ dquote # ''b c'' @ dquote # '', ''
                     @ dquote # ''d'' @ dquote # '': '' @ dquote # ''d'' @ dquote # ''}''"
    by code_simp
  have ec: "''{'' @ join '', ''
              (map (\<lambda>i. dquote # (''k'' @ ''_'' @ show_nat (i + 1)) @ dquote # '': ''
                           @ dquote # [''x'', ''y''] ! i @ [dquote])
                   [0..<length [''x'', ''y'']]) @ ''}''
            = ''{'' @ dquote # ''k_1'' @ dquote # '': '' @ dquote # ''x'' @ dquote # '', ''
                     @ dquote # ''k_2'' @ dquote # '': '' @ dquote # ''y'' @ dquote # ''}''"
    by code_simp
  note t = dict_entries_one_per_item [THEN conjunct2]
  from t [of ?a "[''x'', ''y'']", THEN conjunct1] ka
  have 1: "fst (format_as_dict ?a [''x'', ''y''])
       = Some (''{'' @ dquote # ''0'' @ dquote # '': '' @ dquote # ''x'' @ dquote # '', ''
                     @ dquote # ''1'' @ dquote # '': '' @ dquote # ''y'' @ dquote # ''}'')"
    unfolding ea by (rule mp)
  from t [of ?b "[''a b c'', ''d'']", THEN conjunct2, THEN conjunct2, THEN conjunct2, THEN conjunct1] kb
  have 2: "fst (format_as_dict ?b [''a b c'', ''d''])
       = Some (''{'' @ dquote # ''a'' @ dquote # '': '' @ dquote # ''b c'' @ dquote # '', ''
                     @ dquote # ''d'' @ dquote # '': '' @ dquote # ''d'' @ dquote # ''}'')"
    unfolding eb by (rule mp)
  have "dict_key_type ?c = KeyUserDefined \<and> strip (user_prefix ?c) \<noteq> []"
    using kc pc by simp
  with t [of ?c "[''x'', ''y'']", THEN conjunct2, THEN conjunct2, THEN conjunct1]
  have 3: "fst (format_as_dict ?c [''x'', ''y''])
       = Some (''{'' @ dquote # ''k_1'' @ dquote # '': '' @ dquote # ''x'' @ dquote # '', ''
                     @ dquote # ''k_2'' @ dquote # '': '' @ dquote # ''y'' @ dquote # ''}'')"
    unfolding pc ec by (rule mp)
  have "list_all (\<lambda>item. dquote \<notin> set item) [''x'', ''y'']
        \<and> (dict_key_type ?c = KeyUserDefined \<longrightarrow> dquote \<notin> set (strip (user_prefix ?c)))"
    unfolding pc by simp
  with t [of ?c "[''x'', ''y'']", THEN conjunct2, THEN conjunct2, THEN conjunct2, THEN conjunct2]
  have "\<forall>out. fst (format_as_dict ?c [''x'', ''y'']) = Some out \<longrightarrow>
           count_list out dquote = 4 * length [''x'', ''y'']"
    by (rule mp)
  with 3 have 4: "count_list (''{'' @ dquote # ''k_1'' @ dquote # '': '' @ dquote # ''x'' @ dquote # '', ''
                       @ dquote # ''k_2'' @ dquote # '': '' @ dquote # ''y'' @ dquote # ''}'') dquote
       = 4 * 2" by simp
  show ?thesis by (intro conjI ka kb kc pc qc 1 2 3 4)
qed

text \<open>
  C8. For an item with at least one word, the key of the first-word entry is the first
  word; the value is the other words joined by single spaces when there are two or more
  words, and the item itself when there is one word. An item of the tokenizer is trimmed
  (\<open>items_trimmed\<close>), and a trimmed item of one word is that word: key = value = item.
\<close>

theorem first_word_key_value_rule:
  "split_ws item \<noteq> [] \<Longrightarrow>
   fst (first_word_key_value item) = hd (split_ws item)
   \<and> (1 < length (split_ws item) \<longrightarrow>
        snd (first_word_key_value item) = join '' '' (tl (split_ws item)))
   \<and> (length (split_ws item) = 1 \<longrightarrow> snd (first_word_key_value item) = item)
   \<and> (length (split_ws item) = 1 \<and> strip item = item \<longrightarrow>
        first_word_key_value item = (item, item))"
proof -
  assume ne: "split_ws item \<noteq> []"
  then obtain key rest where ws: "split_ws item = key # rest"
    by (cases "split_ws item") auto
  have single: "key = item" if "rest = []" and "strip item = item"
    using split_ws_single [of item key] ws that by simp
  show ?thesis
    using single by (auto simp: first_word_key_value_def ws)
qed

theorem first_word_key_value_rule_witness:
  "split_ws ''BIS_fnc'' \<noteq> []
   \<and> length (split_ws ''BIS_fnc'') = 1 \<and> strip ''BIS_fnc'' = ''BIS_fnc''
   \<and> first_word_key_value ''BIS_fnc'' = (''BIS_fnc'', ''BIS_fnc'')
   \<and> split_ws ''BIS_fnc  Objects Mapper'' \<noteq> []
   \<and> 1 < length (split_ws ''BIS_fnc  Objects Mapper'')
   \<and> fst (first_word_key_value ''BIS_fnc  Objects Mapper'') = ''BIS_fnc''
   \<and> snd (first_word_key_value ''BIS_fnc  Objects Mapper'') = ''Objects Mapper''"
proof -
  have w1: "split_ws ''BIS_fnc'' = [''BIS_fnc'']" by code_simp
  have w2: "split_ws ''BIS_fnc  Objects Mapper'' = [''BIS_fnc'', ''Objects'', ''Mapper'']"
    by code_simp
  have h1: "split_ws ''BIS_fnc'' \<noteq> []" unfolding w1 by simp
  have h2: "length (split_ws ''BIS_fnc'') = 1" unfolding w1 by simp
  have h3: "strip ''BIS_fnc'' = ''BIS_fnc''" by code_simp
  have h4: "split_ws ''BIS_fnc  Objects Mapper'' \<noteq> []" unfolding w2 by simp
  have h5: "1 < length (split_ws ''BIS_fnc  Objects Mapper'')" unfolding w2 by simp
  have 1: "first_word_key_value ''BIS_fnc'' = (''BIS_fnc'', ''BIS_fnc'')"
    using first_word_key_value_rule [OF h1] h2 h3 by blast
  have "fst (first_word_key_value ''BIS_fnc  Objects Mapper'')
          = hd (split_ws ''BIS_fnc  Objects Mapper'')"
    and "snd (first_word_key_value ''BIS_fnc  Objects Mapper'')
          = join '' '' (tl (split_ws ''BIS_fnc  Objects Mapper''))"
    using first_word_key_value_rule [OF h4] h5 by blast+
  then have 2: "fst (first_word_key_value ''BIS_fnc  Objects Mapper'') = ''BIS_fnc''"
    and 3: "snd (first_word_key_value ''BIS_fnc  Objects Mapper'') = ''Objects Mapper''"
    unfolding w2 by simp_all
  show ?thesis by (intro conjI h1 h2 h3 1 h4 h5 2 3)
qed

subsection \<open>Auto-detect never splits on newlines\<close>

text \<open>
  C10. The normalized text holds no newline character: every whitespace run, newlines
  included, has become one space before detection runs. Detection on the normalized text
  therefore counts zero newlines and returns the comma or the space, never the newline,
  and that separator is the one auto-detect splits on.
\<close>

theorem auto_never_splits_on_newline:
  "newline \<notin> set (cleaned raw)
   \<and> count_list (cleaned raw) newline = 0
   \<and> auto_detect_separator (cleaned raw) \<noteq> newline
   \<and> (auto_detect_separator (cleaned raw) = CHR '','' \<or> auto_detect_separator (cleaned raw) = CHR '' '')
   \<and> (separator_var a = SepAuto \<longrightarrow>
        clean_and_split_string a raw
          = map strip (filter (\<lambda>item. strip item \<noteq> [])
                         (split_on (auto_detect_separator (cleaned raw)) (cleaned raw))))"
proof -
  have n: "newline \<notin> set (cleaned raw)" by (rule cleaned_no_newline)
  then have z: "count_list (cleaned raw) newline = 0" by (simp add: count_list_0_iff)
  have d: "auto_detect_separator (cleaned raw) = CHR '',''
            \<or> auto_detect_separator (cleaned raw) = CHR '' ''"
    by (simp add: auto_detect_separator_def Let_def z)
  then have e: "auto_detect_separator (cleaned raw) \<noteq> newline" by auto
  have s: "separator_var a = SepAuto \<longrightarrow>
        clean_and_split_string a raw
          = map strip (filter (\<lambda>item. strip item \<noteq> [])
                         (split_on (auto_detect_separator (cleaned raw)) (cleaned raw)))"
    by (simp add: clean_and_split_string_def Let_def)
  show ?thesis by (intro conjI n z e d s)
qed

theorem auto_never_splits_on_newline_witness:
  "separator_var (snapshot [CHR ''a'', newline, CHR ''b'', CHR ''/'', CHR ''n'', CHR ''c'']
                    SepAuto FmtList KeyNone []) = SepAuto
   \<and> cleaned [CHR ''a'', newline, CHR ''b'', CHR ''/'', CHR ''n'', CHR ''c''] = ''a b c''
   \<and> auto_detect_separator (cleaned [CHR ''a'', newline, CHR ''b'', CHR ''/'', CHR ''n'', CHR ''c''])
       = CHR '' ''
   \<and> clean_and_split_string
        (snapshot [CHR ''a'', newline, CHR ''b'', CHR ''/'', CHR ''n'', CHR ''c'']
           SepAuto FmtList KeyNone [])
        [CHR ''a'', newline, CHR ''b'', CHR ''/'', CHR ''n'', CHR ''c'']
       = [''a'', ''b'', ''c'']"
proof -
  let ?raw = "[CHR ''a'', newline, CHR ''b'', CHR ''/'', CHR ''n'', CHR ''c'']"
  let ?a = "snapshot ?raw SepAuto FmtList KeyNone []"
  have h: "separator_var ?a = SepAuto" by (simp add: snapshot_def)
  have c: "cleaned ?raw = ''a b c''" by code_simp
  have d: "auto_detect_separator ''a b c'' = CHR '' ''" by code_simp
  have sp: "map strip (filter (\<lambda>item. strip item \<noteq> []) (split_on CHR '' '' ''a b c''))
              = [''a'', ''b'', ''c'']" by code_simp
  note t = auto_never_splits_on_newline [of ?raw ?a]
  from t h have "clean_and_split_string ?a ?raw
          = map strip (filter (\<lambda>item. strip item \<noteq> [])
                         (split_on (auto_detect_separator (cleaned ?raw)) (cleaned ?raw)))"
    by blast
  then have r: "clean_and_split_string ?a ?raw = [''a'', ''b'', ''c'']"
    unfolding c d sp .
  have d': "auto_detect_separator (cleaned ?raw) = CHR '' ''" unfolding c d ..
  show ?thesis by (intro conjI h c d' r)
qed

subsection \<open>Joining and tokenizing again\<close>

text \<open>
  C4, as the code has it. Take a non-empty sequence of items that are not empty, hold no
  whitespace and do not hold the marker \<open>/n\<close>. Joined with a space (choice space) or a
  newline (choice newline) and tokenized with that choice, the original items come back.
  Joined with a comma and a space (choice comma), the tokenizer splits on the space only:
  every item but the last comes back with a comma appended, so the original sequence
  comes back exactly when it has one item.
\<close>

theorem manual_round_trip:
  "items \<noteq> [] \<Longrightarrow>
   list_all (\<lambda>item. item \<noteq> [] \<and> list_all (\<lambda>c. \<not> isspace c) item \<and> \<not> has_marker item) items \<Longrightarrow>
   (separator_var a = SepSpace \<longrightarrow>
      format_with_separator_style a items FmtNone = Some (join '' '' items)
      \<and> clean_and_split_string a (join '' '' items) = items)
   \<and> (separator_var a = SepNewline \<longrightarrow>
      format_with_separator_style a items FmtNone = Some (join [newline] items)
      \<and> clean_and_split_string a (join [newline] items) = items)
   \<and> (separator_var a = SepComma \<longrightarrow>
      format_with_separator_style a items FmtNone = Some (join '', '' items)
      \<and> clean_and_split_string a (join '', '' items)
          = map (\<lambda>w. w @ '','') (butlast items) @ [last items]
      \<and> (clean_and_split_string a (join '', '' items) = items \<longleftrightarrow> length items = 1))"
proof -
  assume ne: "items \<noteq> []"
    and h: "list_all (\<lambda>item. item \<noteq> [] \<and> list_all (\<lambda>c. \<not> isspace c) item \<and> \<not> has_marker item) items"
  from h have w: "list_all (\<lambda>item. item \<noteq> [] \<and> list_all (\<lambda>c. \<not> isspace c) item) items"
    and m: "list_all (\<lambda>item. \<not> has_marker item) items"
    by (simp_all add: list_all_iff)
  have space: "clean_and_split_string a (join '' '' items) = items"
    if "separator_var a = SepSpace"
    using that manual_tokens [of a "join '' '' items"] has_marker_join1 [OF m, of "CHR '' ''"]
      split_ws_join1 [OF w, of "CHR '' ''"] by simp
  have nl: "clean_and_split_string a (join [newline] items) = items"
    if "separator_var a = SepNewline"
    using that manual_tokens [of a "join [newline] items"] has_marker_join1 [OF m, of newline]
      split_ws_join1 [OF w, of newline] by simp
  have comma: "clean_and_split_string a (join '', '' items)
                 = map (\<lambda>w. w @ '','') (butlast items) @ [last items]"
    if "separator_var a = SepComma"
    using that manual_tokens [of a "join '', '' items"] has_marker_join_comma [OF m]
      split_ws_join_comma [OF w ne] by simp
  have iff: "map (\<lambda>w. w @ '','') (butlast items) @ [last items] = items \<longleftrightarrow> length items = 1"
  proof (cases items)
    case Nil
    with ne show ?thesis by simp
  next
    case (Cons x xs)
    show ?thesis unfolding Cons by (cases xs) auto
  qed
  show ?thesis
    using space nl comma iff by (auto simp: format_with_separator_style_def)
qed

theorem manual_round_trip_witness:
  "[''a'', ''b'', ''c''] \<noteq> []
   \<and> list_all (\<lambda>item. item \<noteq> [] \<and> list_all (\<lambda>c. \<not> isspace c) item \<and> \<not> has_marker item)
        [''a'', ''b'', ''c'']
   \<and> clean_and_split_string (snapshot [] SepSpace FmtNone KeyNone []) ''a b c''
       = [''a'', ''b'', ''c'']
   \<and> clean_and_split_string (snapshot [] SepNewline FmtNone KeyNone [])
        [CHR ''a'', newline, CHR ''b'', newline, CHR ''c'']
       = [''a'', ''b'', ''c'']
   \<and> clean_and_split_string (snapshot [] SepComma FmtNone KeyNone []) ''a, b, c''
       = [''a,'', ''b,'', ''c'']"
proof -
  let ?items = "[''a'', ''b'', ''c'']"
  have h1: "?items \<noteq> []" by simp
  have h2: "list_all (\<lambda>item. item \<noteq> [] \<and> list_all (\<lambda>c. \<not> isspace c) item \<and> \<not> has_marker item)
              ?items"
    by (simp add: isspace_def)
  have s: "separator_var (snapshot [] SepSpace FmtNone KeyNone []) = SepSpace"
    and n: "separator_var (snapshot [] SepNewline FmtNone KeyNone []) = SepNewline"
    and c: "separator_var (snapshot [] SepComma FmtNone KeyNone []) = SepComma"
    by (simp_all add: snapshot_def)
  have 1: "clean_and_split_string (snapshot [] SepSpace FmtNone KeyNone []) ''a b c'' = ?items"
    using manual_round_trip [OF h1 h2, of "snapshot [] SepSpace FmtNone KeyNone []"]
    by (simp add: s)
  have 2: "clean_and_split_string (snapshot [] SepNewline FmtNone KeyNone [])
             [CHR ''a'', newline, CHR ''b'', newline, CHR ''c''] = ?items"
    using manual_round_trip [OF h1 h2, of "snapshot [] SepNewline FmtNone KeyNone []"]
    by (simp add: n)
  have 3: "clean_and_split_string (snapshot [] SepComma FmtNone KeyNone []) ''a, b, c''
             = [''a,'', ''b,'', ''c'']"
    using manual_round_trip [OF h1 h2, of "snapshot [] SepComma FmtNone KeyNone []"]
    by (simp add: c)
  show ?thesis by (intro conjI h1 h2 1 2 3)
qed

text \<open>
  The items a, b joined for the choice comma give \<open>a, b\<close>, which tokenizes to \<open>a,\<close> and
  \<open>b\<close>; the single item \<open>a/nb\<close> holds no whitespace and tokenizes, for the choice space,
  to a and b, since normalization replaces the marker by a space.
\<close>

theorem manual_round_trip_counterexample:
  "\<not> isspace CHR ''a'' \<and> \<not> isspace CHR ''b''
   \<and> format_with_separator_style (snapshot ''a b'' SepComma FmtNone KeyNone []) [''a'', ''b''] FmtNone
       = Some ''a, b''
   \<and> clean_and_split_string (snapshot ''a b'' SepComma FmtNone KeyNone []) ''a, b''
       = [''a,'', ''b'']
   \<and> [''a,'', ''b''] \<noteq> [''a'', ''b'']
   \<and> \<not> isspace CHR ''/'' \<and> \<not> isspace CHR ''n''
   \<and> format_with_separator_style (snapshot ''a/nb'' SepSpace FmtNone KeyNone []) [''a/nb''] FmtNone
       = Some ''a/nb''
   \<and> clean_and_split_string (snapshot ''a/nb'' SepSpace FmtNone KeyNone []) ''a/nb''
       = [''a'', ''b'']
   \<and> [''a'', ''b''] \<noteq> [''a/nb'']"
  by code_simp

end
